theory Spec2Isabelle
  imports Main "HOL-Library.Char_ord" "HOL-Library.List_Lexorder" "HOL-Library.Sublist"
begin

section \<open>Strings\<close>

text \<open>
  A Python \<^verbatim>\<open>str\<close> is a \<^typ>\<open>string\<close>: the list of the bytes of its UTF-8 encoding.
  The order on strings is the lexicographic order on these lists, which is the order
  Python's \<^verbatim>\<open>list.sort\<close> uses on \<^verbatim>\<open>str\<close> (comparing code points and comparing UTF-8
  bytes give the same result). \<^verbatim>\<open>str.lower\<close> is modelled on the ASCII letters; every other
  byte is left as it is.
\<close>

definition lower_char :: "char \<Rightarrow> char" where
  "lower_char c =
     (let n = (of_char c :: nat) in if 65 \<le> n \<and> n \<le> 90 then char_of (n + 32) else c)"

definition lower :: "string \<Rightarrow> string" where
  "lower s = map lower_char s"

text \<open>\<^verbatim>\<open>s.split(sep)\<close> for a separator of one character: never the empty list.\<close>

fun split :: "char \<Rightarrow> string \<Rightarrow> string list" where
  "split sep [] = [[]]"
| "split sep (c # cs) =
     (if c = sep then [] # split sep cs
      else (case split sep cs of w # ws \<Rightarrow> (c # w) # ws | [] \<Rightarrow> [[c]]))"

text \<open>\<^verbatim>\<open>"/".join(xs)\<close>.\<close>

fun join :: "string list \<Rightarrow> string" where
  "join [] = []"
| "join [x] = x"
| "join (x # y # ys) = x @ CHR ''/'' # join (y # ys)"

text \<open>\<^verbatim>\<open>os.path.basename(p)\<close> on POSIX: what follows the last slash.\<close>

definition basename :: "string \<Rightarrow> string" where
  "basename p = rev (takeWhile (\<lambda>c. c \<noteq> CHR ''/'') (rev p))"

section \<open>The file system\<close>

text \<open>
  The scanner reads the file system through \<^verbatim>\<open>pathlib\<close>. The file system is a tree of
  directories, regular files and symbolic links (a link stores its target as a string), with
  a current working directory and the kernel's bound on the number of links followed in one
  path resolution (40 on Linux). Every directory is readable and searchable; the tree does
  not change while a scan runs.
\<close>

datatype node = File | Dir "(string \<times> node) list" | Symlink string

record filesystem =
  root_dir :: node
  cwd :: "string list"
  maxsymlinks :: nat

text \<open>\<^verbatim>\<open>lstat\<close> of a path given by the names from the root, following no link.\<close>

fun lookup :: "node \<Rightarrow> string list \<Rightarrow> node option" where
  "lookup n [] = Some n"
| "lookup (Dir es) (c # cs) = (case map_of es c of None \<Rightarrow> None | Some n \<Rightarrow> lookup n cs)"
| "lookup File (c # cs) = None"
| "lookup (Symlink t) (c # cs) = None"

text \<open>
  Path resolution as \<^verbatim>\<open>stat(2)\<close> does it: \<open>cur\<close> is the link-free path of the directory
  reached so far, the second list holds the components still to be walked. An empty
  component (from a doubled or trailing slash) and \<^verbatim>\<open>.\<close> stay in the directory, \<^verbatim>\<open>..\<close>
  goes to the parent, a symbolic link is replaced by the components of its target. The
  result is the link-free path and the node found; \<open>None\<close> is \<^verbatim>\<open>ENOENT\<close>, \<^verbatim>\<open>ENOTDIR\<close> or
  \<^verbatim>\<open>ELOOP\<close>.
\<close>

fun walk :: "nat \<Rightarrow> node \<Rightarrow> string list \<Rightarrow> string list \<Rightarrow> (string list \<times> node) option" where
  "walk fuel t cur [] = (case lookup t cur of None \<Rightarrow> None | Some n \<Rightarrow> Some (cur, n))"
| "walk fuel t cur (name # rest) =
     (case lookup t cur of
        Some (Dir es) \<Rightarrow>
          (if name = [] \<or> name = ''.'' then walk fuel t cur rest
           else if name = ''..'' then walk fuel t (butlast cur) rest
           else (case map_of es name of
                   None \<Rightarrow> None
                 | Some (Symlink target) \<Rightarrow>
                     (if target = [] then None
                      else (case fuel of
                              0 \<Rightarrow> None
                            | Suc k \<Rightarrow>
                                walk k t (if hd target = CHR ''/'' then [] else cur)
                                  (split CHR ''/'' target @ rest)))
                 | Some n \<Rightarrow> walk fuel t (cur @ [name]) rest))
      | Some File \<Rightarrow> None
      | Some (Symlink target) \<Rightarrow> None
      | None \<Rightarrow> None)"

text \<open>
  A \<^verbatim>\<open>pathlib.Path\<close>: whether it starts at the root, and its parts. \<^verbatim>\<open>Path(s)\<close> drops empty
  components and \<^verbatim>\<open>.\<close> and keeps \<^verbatim>\<open>..\<close>; \<^verbatim>\<open>Path("")\<close> is the current directory.
\<close>

record pure_path =
  anchored :: bool
  parts :: "string list"

definition Path :: "string \<Rightarrow> pure_path" where
  "Path s = \<lparr>anchored = (s \<noteq> [] \<and> hd s = CHR ''/''),
             parts = filter (\<lambda>x. x \<noteq> [] \<and> x \<noteq> ''.'') (split CHR ''/'' s)\<rparr>"

text \<open>\<^verbatim>\<open>str(p)\<close>.\<close>

definition str :: "pure_path \<Rightarrow> string" where
  "str p = (if parts p = [] then (if anchored p then ''/'' else ''.'')
            else (if anchored p then ''/'' else []) @ join (parts p))"

text \<open>\<^verbatim>\<open>p.name\<close> and \<^verbatim>\<open>p.suffix\<close>: the suffix starts at the last dot of the name, when that dot
  is neither the first nor the last character of the name.\<close>

definition name :: "pure_path \<Rightarrow> string" where
  "name p = (if parts p = [] then [] else last (parts p))"

definition suffix_of_name :: "string \<Rightarrow> string" where
  "suffix_of_name nm =
     (let tail = rev (takeWhile (\<lambda>c. c \<noteq> CHR ''.'') (rev nm)) in
      if CHR ''.'' \<in> set nm \<and> tail \<noteq> [] \<and> length tail + 1 < length nm
      then CHR ''.'' # tail else [])"

definition suffix_of :: "pure_path \<Rightarrow> string" where
  "suffix_of p = suffix_of_name (name p)"

definition stat :: "filesystem \<Rightarrow> pure_path \<Rightarrow> (string list \<times> node) option" where
  "stat fs p = walk (maxsymlinks fs) (root_dir fs) (if anchored p then [] else cwd fs) (parts p)"

definition is_dir :: "filesystem \<Rightarrow> pure_path \<Rightarrow> bool" where
  "is_dir fs p = (case stat fs p of Some (rp, Dir es) \<Rightarrow> True | _ \<Rightarrow> False)"

definition is_file :: "filesystem \<Rightarrow> pure_path \<Rightarrow> bool" where
  "is_file fs p = (case stat fs p of Some (rp, File) \<Rightarrow> True | _ \<Rightarrow> False)"

text \<open>
  \<^verbatim>\<open>p.resolve()\<close>: the absolute, link-free path of \<open>p\<close>. The scanner resolves only paths
  that \<^verbatim>\<open>is_file\<close> accepted, which the kernel resolves; for any other path the model returns
  the path as it is.
\<close>

definition resolve :: "filesystem \<Rightarrow> pure_path \<Rightarrow> pure_path" where
  "resolve fs p = (case stat fs p of Some (rp, n) \<Rightarrow> \<lparr>anchored = True, parts = rp\<rparr> | None \<Rightarrow> p)"

text \<open>\<^verbatim>\<open>os.path.isdir(s)\<close>: \<^verbatim>\<open>stat\<close> on the string itself; the empty string is \<^verbatim>\<open>ENOENT\<close>.\<close>

definition os_path_isdir :: "filesystem \<Rightarrow> string \<Rightarrow> bool" where
  "os_path_isdir fs s =
     (if s = [] then False
      else (case walk (maxsymlinks fs) (root_dir fs) (if hd s = CHR ''/'' then [] else cwd fs)
                   (split CHR ''/'' s) of
              Some (rp, Dir es) \<Rightarrow> True
            | _ \<Rightarrow> False))"

text \<open>
  \<^verbatim>\<open>base.rglob("*")\<close>: every entry below the directory, given by its names relative to it.
  The walk enters directories and never a symbolic link. The order in which the operating
  system lists a directory is the order of the list of the \<open>Dir\<close> node.
\<close>

fun entries :: "node \<Rightarrow> string list list"
  and entries_list :: "(string \<times> node) list \<Rightarrow> string list list" where
  "entries (Dir es) = entries_list es"
| "entries File = []"
| "entries (Symlink t) = []"
| "entries_list [] = []"
| "entries_list (e # es) = [fst e] # map ((#) (fst e)) (entries (snd e)) @ entries_list es"

definition rglob :: "filesystem \<Rightarrow> pure_path \<Rightarrow> pure_path list" where
  "rglob fs base =
     (case stat fs base of
        Some (rp, n) \<Rightarrow> map (\<lambda>rel. base\<lparr>parts := parts base @ rel\<rparr>) (entries n)
      | None \<Rightarrow> [])"

section \<open>The scanner\<close>

definition IMAGE_EXTENSIONS :: "string list" where
  "IMAGE_EXTENSIONS =
     [''.png'', ''.jpg'', ''.jpeg'', ''.bmp'', ''.gif'', ''.tiff'', ''.tif'', ''.webp'',
      ''.heic'', ''.heif'', ''.svg'', ''.ppm'', ''.pgm'']"

text \<open>The body of the \<^verbatim>\<open>for\<close> loop of \<^verbatim>\<open>scan_images\<close>, over the entries still to come.\<close>

fun scan_loop :: "filesystem \<Rightarrow> string list \<Rightarrow> pure_path list \<Rightarrow> string list \<Rightarrow> string list" where
  "scan_loop fs exts_lower [] out = out"
| "scan_loop fs exts_lower (p # ps) out =
     (if is_file fs p \<and> lower (suffix_of p) \<in> set exts_lower
      then scan_loop fs exts_lower ps (out @ [str (resolve fs p)])
      else scan_loop fs exts_lower ps out)"

definition scan_images :: "filesystem \<Rightarrow> string \<Rightarrow> string list \<Rightarrow> string list" where
  "scan_images fs root exts =
     (let base = Path root in
      if \<not> is_dir fs base then []
      else (let exts_lower = map lower exts in
            sort (scan_loop fs exts_lower (rglob fs base) [])))"

text \<open>
  Trees on which the scanner is characterised below: \<open>wf_node\<close> says that the names of a
  directory are file names (not empty, not \<^verbatim>\<open>.\<close> or \<^verbatim>\<open>..\<close>, without a slash) and differ from
  one another; \<open>link_free\<close> says that the tree holds no symbolic link.
\<close>

definition valid_name :: "string \<Rightarrow> bool" where
  "valid_name nm = (nm \<noteq> [] \<and> nm \<noteq> ''.'' \<and> nm \<noteq> ''..'' \<and> CHR ''/'' \<notin> set nm)"

fun wf_node :: "node \<Rightarrow> bool"
  and wf_entries :: "(string \<times> node) list \<Rightarrow> bool" where
  "wf_node (Dir es) = wf_entries es"
| "wf_node File = True"
| "wf_node (Symlink t) = True"
| "wf_entries [] = True"
| "wf_entries (e # es) =
     (valid_name (fst e) \<and> fst e \<notin> fst ` set es \<and> wf_node (snd e) \<and> wf_entries es)"

fun link_free :: "node \<Rightarrow> bool"
  and link_free_entries :: "(string \<times> node) list \<Rightarrow> bool" where
  "link_free (Dir es) = link_free_entries es"
| "link_free File = True"
| "link_free (Symlink t) = False"
| "link_free_entries [] = True"
| "link_free_entries (e # es) = (link_free (snd e) \<and> link_free_entries es)"

section \<open>The result store\<close>

text \<open>
  \<^verbatim>\<open>ImageListModel\<close>: the list of paths, the cache of thumbnails, and the calls it makes to
  its Qt base class, in order (these calls are what notifies the observers: a
  \<^verbatim>\<open>beginResetModel\<close>/\<^verbatim>\<open>endResetModel\<close> pair is one reset, a
  \<^verbatim>\<open>beginRemoveRows(first, last)\<close>/\<^verbatim>\<open>endRemoveRows\<close> pair is one removal of the rows
  \<open>first..last\<close>). An icon is named by the path and the size it was made for; the image it
  shows is not modelled.
\<close>

datatype icon = Icon string int

datatype qt_call = BeginResetModel | EndResetModel | BeginRemoveRows nat nat | EndRemoveRows

datatype py_error = IndexError

datatype variant = Str string | Decoration icon

record ImageListModel =
  paths :: "string list"
  thumbs :: "string \<rightharpoonup> icon"
  thumb_size :: int
  qt_calls :: "qt_call list"

definition ImageListModel_init :: "string list \<Rightarrow> int \<Rightarrow> ImageListModel" where
  "ImageListModel_init ps sz =
     \<lparr>paths = ps, thumbs = Map.empty, thumb_size = sz, qt_calls = []\<rparr>"

definition displayRole :: int where "displayRole = 0"
definition decorationRole :: int where "decorationRole = 1"
definition FILEPATH_ROLE :: int where "FILEPATH_ROLE = 256 + 1"

text \<open>
  A \<^verbatim>\<open>QModelIndex\<close> holds a row, a column and a pointer to its model; Qt's \<^verbatim>\<open>isValid\<close> is
  true when row and column are not negative and the pointer is set. It does not compare
  the row with the model's present row count.
\<close>

record QModelIndex =
  row :: int
  column :: int
  has_model :: bool

definition isValid :: "QModelIndex \<Rightarrow> bool" where
  "isValid idx = (0 \<le> row idx \<and> 0 \<le> column idx \<and> has_model idx)"

definition rowCount :: "ImageListModel \<Rightarrow> nat" where
  "rowCount m = length (paths m)"

definition make_icon :: "ImageListModel \<Rightarrow> string \<Rightarrow> icon" where
  "make_icon m pth = Icon pth (thumb_size m)"

text \<open>
  \<^verbatim>\<open>data\<close> returns the value and the model (the decoration role fills the thumbnail cache).
  \<^verbatim>\<open>self._paths[index.row()]\<close> is evaluated for every valid index, before the role is
  looked at, and raises \<^verbatim>\<open>IndexError\<close> when the row is not below the length of the list.
\<close>

definition data :: "ImageListModel \<Rightarrow> QModelIndex \<Rightarrow> int \<Rightarrow> py_error + (variant option \<times> ImageListModel)" where
  "data m idx role =
     (if \<not> isValid idx then Inr (None, m)
      else if length (paths m) \<le> nat (row idx) then Inl IndexError
      else (let pth = paths m ! nat (row idx) in
            if role = displayRole then Inr (Some (Str (basename pth)), m)
            else if role = FILEPATH_ROLE then Inr (Some (Str pth), m)
            else if role = decorationRole then
              (case thumbs m pth of
                 None \<Rightarrow> (let ic = make_icon m pth
                          in Inr (Some (Decoration ic), m\<lparr>thumbs := (thumbs m)(pth \<mapsto> ic)\<rparr>))
               | Some ic \<Rightarrow> Inr (Some (Decoration ic), m))
            else Inr (None, m)))"

definition replace :: "ImageListModel \<Rightarrow> string list \<Rightarrow> ImageListModel" where
  "replace m ps =
     m\<lparr>paths := ps, thumbs := Map.empty, qt_calls := qt_calls m @ [BeginResetModel, EndResetModel]\<rparr>"

text \<open>\<^verbatim>\<open>xs.index(x)\<close>: the first position of \<open>x\<close>; \<open>None\<close> is \<^verbatim>\<open>ValueError\<close>.\<close>

fun index_of :: "'a list \<Rightarrow> 'a \<Rightarrow> nat option" where
  "index_of [] x = None"
| "index_of (y # ys) x = (if y = x then Some 0 else map_option Suc (index_of ys x))"

text \<open>\<^verbatim>\<open>xs.pop(i)\<close> for \<open>i\<close> not negative: the list without position \<open>i\<close>.\<close>

definition pop :: "'a list \<Rightarrow> nat \<Rightarrow> py_error + 'a list" where
  "pop xs i = (if length xs \<le> i then Inl IndexError else Inr (take i xs @ drop (Suc i) xs))"

definition remove_path :: "ImageListModel \<Rightarrow> string \<Rightarrow> py_error + ImageListModel" where
  "remove_path m pth =
     (case index_of (paths m) pth of
        None \<Rightarrow> Inr m
      | Some r \<Rightarrow>
          (case pop (paths m) r of
             Inl e \<Rightarrow> Inl e
           | Inr ps \<Rightarrow>
               Inr (m\<lparr>paths := ps, thumbs := (thumbs m)(pth := None),
                       qt_calls := qt_calls m @ [BeginRemoveRows r r, EndRemoveRows]\<rparr>)))"

section \<open>The filtered view\<close>

text \<open>
  The view model filters through Qt's \<^verbatim>\<open>QSortFilterProxyModel\<close>, which is not code of the
  repository. It is modelled as Qt documents it: the proxy keeps the source rows that
  \<^verbatim>\<open>filterAcceptsRow\<close> accepts, in the order of the source (no sort column is set); a row
  is accepted when the filter string is empty, or when the string that the source's
  \<^verbatim>\<open>data\<close> returns for the filter role at column 0 contains the filter string, compared
  without regard to case when the proxy is case insensitive.
\<close>

record QSortFilterProxyModel =
  filter_fixed_string :: string
  case_sensitive :: bool
  filter_role :: int



section \<open>The scan controller\<close>

text \<open>
  A \<^verbatim>\<open>ScanWorker\<close> object is named by its position in the list of the workers created so
  far, so that \<^verbatim>\<open>self._current_worker is worker\<close> is the equality of two positions.
\<close>

record ScanWorker =
  path :: string
  cancel_event :: bool

definition ScanWorker_init :: "string \<Rightarrow> ScanWorker" where
  "ScanWorker_init dir = \<lparr>path = dir, cancel_event = False\<rparr>"

definition cancel :: "ScanWorker \<Rightarrow> ScanWorker" where
  "cancel w = w\<lparr>cancel_event := True\<rparr>"

datatype signal = Result "string list" | Error string | Finished

text \<open>
  \<^verbatim>\<open>ScanWorker.run\<close>, given what the call \<^verbatim>\<open>scan_images(self.path)\<close> did: it returned the
  matches (\<open>Inr\<close>) or raised an exception with a message (\<open>Inl\<close>). The result is the list of
  the signals emitted, in order. The cancel flag is read when \<^verbatim>\<open>run\<close> reaches the test,
  after the scan.
\<close>

definition run :: "ScanWorker \<Rightarrow> string + string list \<Rightarrow> signal list" where
  "run w outcome =
     (case outcome of
        Inr matches \<Rightarrow> (if \<not> cancel_event w then [Result matches] else [])
      | Inl exc \<Rightarrow> (if \<not> cancel_event w then [Error exc] else [])) @ [Finished]"

record ViewModel =
  model :: ImageListModel
  proxy :: QSortFilterProxyModel
  busy :: bool
  busyChanged :: "bool list"
  current_worker :: "nat option"

definition ViewModel_init :: ViewModel where
  "ViewModel_init =
     \<lparr>model = ImageListModel_init [] 64,
      proxy = \<lparr>filter_fixed_string = [], case_sensitive = False, filter_role = displayRole\<rparr>,
      busy = False, busyChanged = [], current_worker = None\<rparr>"

definition set_busy :: "ViewModel \<Rightarrow> bool \<Rightarrow> ViewModel" where
  "set_busy v val =
     (if busy v \<noteq> val then v\<lparr>busy := val, busyChanged := busyChanged v @ [val]\<rparr> else v)"



text \<open>
  The application: the view model (which lives on the main thread), the workers created so
  far, the workers handed to the thread pool and not yet finished, the signals emitted by
  pool threads and not yet delivered, and what was printed. A signal emitted on a pool
  thread reaches its slot through the event queue of the main thread (a queued connection),
  so the slot runs later, on the main thread, in the order of emission.
\<close>

record app =
  vm :: ViewModel
  workers :: "ScanWorker list"
  pool :: "nat list"
  queue :: "(nat \<times> signal) list"
  stdout :: "string list"

definition app_init :: app where
  "app_init = \<lparr>vm = ViewModel_init, workers = [], pool = [], queue = [], stdout = []\<rparr>"

text \<open>\<^verbatim>\<open>ViewModel.scan\<close>, called on the main thread.\<close>

definition scan :: "filesystem \<Rightarrow> string \<Rightarrow> app \<Rightarrow> app" where
  "scan fs dir a =
     (if dir = [] \<or> \<not> os_path_isdir fs dir
      then a\<lparr>vm := (vm a)\<lparr>model := replace (model (vm a)) []\<rparr>\<rparr>
      else (let ws = (case current_worker (vm a) of
                        None \<Rightarrow> workers a
                      | Some c \<Rightarrow> (workers a)[c := cancel (workers a ! c)]);
                v1 = set_busy ((vm a)\<lparr>current_worker := None\<rparr>) True;
                worker = length ws
            in a\<lparr>vm := v1\<lparr>current_worker := Some worker\<rparr>,
                 workers := ws @ [ScanWorker_init dir],
                 pool := pool a @ [worker]\<rparr>))"

text \<open>The closure \<^verbatim>\<open>on_finished\<close> that \<^verbatim>\<open>scan\<close> connects for its worker.\<close>

definition on_finished :: "nat \<Rightarrow> ViewModel \<Rightarrow> ViewModel" where
  "on_finished worker v =
     set_busy (if current_worker v = Some worker then v\<lparr>current_worker := None\<rparr> else v) False"

text \<open>The slot connected to each signal of a worker, run on the main thread.\<close>

fun handle :: "nat \<Rightarrow> signal \<Rightarrow> app \<Rightarrow> app" where
  "handle worker (Result matches) a = a\<lparr>vm := (vm a)\<lparr>model := replace (model (vm a)) matches\<rparr>\<rparr>"
| "handle worker (Error msg) a = a\<lparr>stdout := stdout a @ [''Scan error: '' @ msg]\<rparr>"
| "handle worker Finished a = a\<lparr>vm := on_finished worker (vm a)\<rparr>"

text \<open>A pool thread runs a worker to its end: the signals it emits are queued.\<close>

definition complete :: "nat \<Rightarrow> string + string list \<Rightarrow> app \<Rightarrow> app" where
  "complete worker outcome a =
     a\<lparr>pool := removeAll worker (pool a),
       queue := queue a @ map (Pair worker) (run (workers a ! worker) outcome)\<rparr>"

text \<open>The main thread takes the next queued signal and runs its slot.\<close>

definition deliver :: "app \<Rightarrow> app" where
  "deliver a =
     (case queue a of
        [] \<Rightarrow> a
      | ev # rest \<Rightarrow> handle (fst ev) (snd ev) (a\<lparr>queue := rest\<rparr>))"

text \<open>
  What can happen next: the user asks for a scan, the scan of a worker in the pool returns
  or raises, the main thread delivers a signal.
\<close>

datatype action = Scan string | Returns nat | Raises nat string | Deliver

fun step :: "filesystem \<Rightarrow> app \<Rightarrow> action \<Rightarrow> app" where
  "step fs a (Scan dir) = scan fs dir a"
| "step fs a (Returns worker) =
     (if worker \<in> set (pool a)
      then complete worker (Inr (scan_images fs (path (workers a ! worker)) IMAGE_EXTENSIONS)) a
      else a)"
| "step fs a (Raises worker exc) =
     (if worker \<in> set (pool a) then complete worker (Inl exc) a else a)"
| "step fs a Deliver = deliver a"

definition exec :: "filesystem \<Rightarrow> action list \<Rightarrow> app \<Rightarrow> app" where
  "exec fs acts a = foldl (step fs) a acts"

section \<open>Example states\<close>

text \<open>
  The directory of the repository's test \<^verbatim>\<open>test_scan_images_basic\<close>, mounted at \<^verbatim>\<open>/d\<close>,
  beside a second directory \<^verbatim>\<open>/e\<close>; and a directory that holds a picture and a symbolic
  link to it.
\<close>

definition example_dir :: "(string \<times> node) list" where
  "example_dir =
     [(''a.png'', File), (''b.JPG'', File), (''c.txt'', File), (''sub'', Dir [(''d.webp'', File)])]"

definition example_fs :: filesystem where
  "example_fs =
     \<lparr>root_dir = Dir [(''d'', Dir example_dir), (''e'', Dir [(''b.gif'', File)])],
      cwd = [], maxsymlinks = 40\<rparr>"

definition symlink_fs :: filesystem where
  "symlink_fs =
     \<lparr>root_dir = Dir [(''d'', Dir [(''a.png'', File), (''l.png'', Symlink ''a.png'')])],
      cwd = [], maxsymlinks = 40\<rparr>"

definition example_model :: ImageListModel where
  "example_model = ImageListModel_init [''/d/a.png'', ''/d/b.JPG'', ''/d/sub/d.webp''] 64"

definition example_index :: QModelIndex where
  "example_index = \<lparr>row = 0, column = 0, has_model = True\<rparr>"

section \<open>Strings and paths\<close>

lemma split_no_sep: "sep \<notin> set w \<Longrightarrow> split sep w = [w]"
  by (induction w) auto

lemma split_not_Nil: "split sep s \<noteq> []"
  by (induction s) (auto split: list.splits)

lemma split_append_sep:
  "sep \<notin> set w \<Longrightarrow> split sep (w @ sep # s) = w # split sep s"
  by (induction w) (auto split: list.splits)

lemma split_join:
  "xs \<noteq> [] \<Longrightarrow> \<forall>x\<in>set xs. CHR ''/'' \<notin> set x \<Longrightarrow> split CHR ''/'' (join xs) = xs"
proof (induction xs rule: join.induct)
  case 1
  then show ?case by simp
next
  case (2 x)
  then show ?case by (simp add: split_no_sep)
next
  case (3 x y ys)
  then show ?case by (simp add: split_append_sep)
qed

lemma join_inj:
  assumes "join xs = join ys" "xs \<noteq> []" "ys \<noteq> []"
    "\<forall>x\<in>set xs. CHR ''/'' \<notin> set x" "\<forall>x\<in>set ys. CHR ''/'' \<notin> set x"
  shows "xs = ys"
  using assms by (metis split_join)

lemma join_append:
  "xs \<noteq> [] \<Longrightarrow> ys \<noteq> [] \<Longrightarrow> join (xs @ ys) = join xs @ CHR ''/'' # join ys"
proof (induction xs rule: join.induct)
  case 1
  then show ?case by simp
next
  case (2 x)
  then show ?case by (cases ys) simp_all
next
  case (3 x y ys)
  then show ?case by simp
qed

lemma str_anchored_inj:
  assumes "str \<lparr>anchored = True, parts = rp @ xs\<rparr> = str \<lparr>anchored = True, parts = rp @ ys\<rparr>"
    "xs \<noteq> []" "ys \<noteq> []"
    "\<forall>x\<in>set xs. CHR ''/'' \<notin> set x" "\<forall>x\<in>set ys. CHR ''/'' \<notin> set x"
  shows "xs = ys"
proof -
  from assms(1-3) have j: "join (rp @ xs) = join (rp @ ys)" by (simp add: str_def)
  have "join xs = join ys"
  proof (cases "rp = []")
    case True
    with j show ?thesis by simp
  next
    case False
    with j assms(2,3) show ?thesis by (simp add: join_append)
  qed
  with assms show ?thesis by (intro join_inj)
qed

section \<open>Path resolution\<close>

lemma lookup_append:
  "lookup t (xs @ ys) = (case lookup t xs of None \<Rightarrow> None | Some n \<Rightarrow> lookup n ys)"
  by (induction t xs rule: lookup.induct) (auto split: option.splits)

lemma lookup_snoc_Dir:
  "lookup t cur = Some (Dir es) \<Longrightarrow> lookup t (cur @ [c]) = map_of es c"
  by (simp add: lookup_append split: option.splits)


lemma link_free_entries_map_of:
  "link_free_entries es \<Longrightarrow> map_of es c = Some n \<Longrightarrow> link_free n"
  by (induction es) (auto split: if_splits)

lemma walk_link_free:
  "lookup t cur = Some n \<Longrightarrow> link_free n \<Longrightarrow> \<forall>x\<in>set ys. valid_name x \<Longrightarrow> lookup n ys = Some m \<Longrightarrow>
   walk fuel t cur ys = Some (cur @ ys, m)"
proof (induction ys arbitrary: cur n)
  case Nil
  then show ?case by simp
next
  case (Cons y ys)
  from Cons.prems(4) obtain es n' where n: "n = Dir es" and m: "map_of es y = Some n'"
    and l: "lookup n' ys = Some m"
    by (cases n) (auto split: option.splits)
  from Cons.prems(2) n m have lf: "link_free n'" by (auto dest: link_free_entries_map_of)
  have c: "lookup t (cur @ [y]) = Some n'" using Cons.prems(1) n m by (simp add: lookup_snoc_Dir)
  have v: "y \<noteq> []" "y \<noteq> ''.''" "y \<noteq> ''..''" using Cons.prems(3) by (auto simp: valid_name_def)
  have "walk fuel t (cur @ [y]) ys = Some ((cur @ [y]) @ ys, m)"
    using c lf Cons.prems(3) l by (intro Cons.IH) auto
  moreover have "walk fuel t cur (y # ys) = walk fuel t (cur @ [y]) ys"
    using Cons.prems(1) n m v lf by (cases n') auto
  ultimately show ?case by simp
qed

lemma walk_append:
  "walk fuel t cur xs = Some (rp, n) \<Longrightarrow> link_free n \<Longrightarrow> \<forall>x\<in>set ys. valid_name x \<Longrightarrow> lookup n ys = Some m \<Longrightarrow>
   walk fuel t cur (xs @ ys) = Some (rp @ ys, m)"
proof (induction fuel t cur xs rule: walk.induct)
  case (1 fuel t cur)
  then have "lookup t cur = Some n" "rp = cur" by (auto split: option.splits)
  with 1 show ?case by (simp add: walk_link_free)
next
  case (2 fuel t cur nm rest)
  from "2.prems"(1) obtain es where d: "lookup t cur = Some (Dir es)"
    by (auto split: option.splits node.splits)
  show ?case
  proof (cases "nm = [] \<or> nm = ''.''")
    case True
    with d "2.prems" "2.IH"(1) [OF d refl True] show ?thesis by auto
  next
    case n1: False
    show ?thesis
    proof (cases "nm = ''..''")
      case True
      with n1 d "2.prems" "2.IH"(2) [OF d refl n1 True] show ?thesis by auto
    next
      case n2: False
      show ?thesis
      proof (cases "map_of es nm")
        case None
        with n1 n2 d "2.prems"(1) show ?thesis by auto
      next
        case (Some c)
        show ?thesis
        proof (cases c)
          case File
          with Some n1 n2 d "2.prems" "2.IH"(3) [OF d refl n1 n2 Some File] show ?thesis by auto
        next
          case (Dir es')
          with Some n1 n2 d "2.prems" "2.IH"(4) [OF d refl n1 n2 Some Dir] show ?thesis by auto
        next
          case (Symlink target)
          with Some n1 n2 d "2.prems"(1) obtain k where
            t: "target \<noteq> []" and f: "fuel = Suc k"
            and w: "walk k t (if hd target = CHR ''/'' then [] else cur)
                      (split CHR ''/'' target @ rest) = Some (rp, n)"
            by (auto split: if_splits nat.splits)
          from "2.IH"(5) [OF d refl n1 n2 Some Symlink t f w "2.prems"(2,3,4)]
          show ?thesis using Some Symlink n1 n2 d t f by simp
        qed
      qed
    qed
  qed
qed

section \<open>The entries below a directory\<close>

lemma entries_heads:
  "rel \<in> set (entries n) \<Longrightarrow> rel \<noteq> []"
  "rel \<in> set (entries_list es) \<Longrightarrow> rel \<noteq> [] \<and> hd rel \<in> fst ` set es"
  by (induction n and es arbitrary: rel and rel rule: entries_entries_list.induct) auto

lemma wf_entries_map_of:
  "wf_entries es \<Longrightarrow> map_of es c = Some n \<Longrightarrow> wf_node n \<and> valid_name c"
  by (induction es) (auto split: if_splits)

lemma entries_sound:
  "wf_node n \<Longrightarrow> rel \<in> set (entries n) \<Longrightarrow> (\<forall>x\<in>set rel. valid_name x) \<and> lookup n rel \<noteq> None"
  "wf_entries es \<Longrightarrow> rel \<in> set (entries_list es) \<Longrightarrow>
     (\<forall>x\<in>set rel. valid_name x) \<and> lookup (Dir es) rel \<noteq> None"
proof (induction n and es arbitrary: rel and rel rule: entries_entries_list.induct)
  case (1 es)
  then show ?case by simp
next
  case 2
  then show ?case by simp
next
  case (3 t)
  then show ?case by simp
next
  case 4
  then show ?case by simp
next
  case (5 e es)
  from "5.prems"(1) have wf: "valid_name (fst e)" "fst e \<notin> fst ` set es" "wf_node (snd e)" "wf_entries es"
    by simp_all
  from "5.prems"(2) consider "rel = [fst e]"
    | r where "rel = fst e # r" "r \<in> set (entries (snd e))"
    | "rel \<in> set (entries_list es)"
    by auto
  then show ?case
  proof cases
    case 1
    with wf show ?thesis by (cases e) simp
  next
    case 2
    with "5.IH"(1) [OF wf(3) 2(2)] wf show ?thesis by (cases e) auto
  next
    case 3
    from entries_heads(2) [OF 3] obtain c cs where rel: "rel = c # cs" and c: "c \<in> fst ` set es"
      by (cases rel) auto
    have ne: "c \<noteq> fst e"
    proof
      assume "c = fst e"
      with c wf(2) show False by simp
    qed
    from "5.IH"(2) [OF wf(4) 3] rel ne show ?thesis by (cases e) auto
  qed
qed


lemma entries_distinct:
  "wf_node n \<Longrightarrow> distinct (entries n)"
  "wf_entries es \<Longrightarrow> distinct (entries_list es)"
proof (induction n and es rule: entries_entries_list.induct)
  case (5 e es)
  then have d: "distinct (entries (snd e))" "distinct (entries_list es)"
    and nin: "fst e \<notin> fst ` set es" by simp_all
  have a: "[fst e] \<notin> set (map ((#) (fst e)) (entries (snd e)))"
    using entries_heads(1) by auto
  have b: "[fst e] \<notin> set (entries_list es)"
    using entries_heads(2) [of "[fst e]" es] nin by auto
  have c: "set (map ((#) (fst e)) (entries (snd e))) \<inter> set (entries_list es) = {}"
  proof -
    have "r \<notin> set (entries_list es)" if "r \<in> set (map ((#) (fst e)) (entries (snd e)))" for r
    proof
      assume "r \<in> set (entries_list es)"
      from entries_heads(2) [OF this] have "hd r \<in> fst ` set es" by simp
      moreover from that have "hd r = fst e" by auto
      ultimately show False using nin by simp
    qed
    then show ?thesis by blast
  qed
  have "distinct (map ((#) (fst e)) (entries (snd e)))"
    using d(1) by (simp add: distinct_map)
  with a b c d(2) show ?case by simp
qed simp_all


section \<open>Properties of the scanner\<close>

lemma scan_loop_eq:
  "scan_loop fs el ps out =
     out @ map (\<lambda>p. str (resolve fs p)) (filter (\<lambda>p. is_file fs p \<and> lower (suffix_of p) \<in> set el) ps)"
  by (induction ps arbitrary: out) simp_all

lemma stat_entry:
  assumes "stat fs base = Some (rp, n)" "wf_node n" "link_free n" "rel \<in> set (entries n)"
  shows "\<exists>m. lookup n rel = Some m \<and> stat fs (base\<lparr>parts := parts base @ rel\<rparr>) = Some (rp @ rel, m)"
proof -
  from entries_sound(1) [OF assms(2,4)] obtain m where
    v: "\<forall>x\<in>set rel. valid_name x" and m: "lookup n rel = Some m" by auto
  from assms(1) have "walk (maxsymlinks fs) (root_dir fs) (if anchored base then [] else cwd fs) (parts base) = Some (rp, n)"
    by (simp add: stat_def)
  from walk_append [OF this assms(3) v m] m show ?thesis by (simp add: stat_def)
qed

lemma entry_name:
  "rel \<noteq> [] \<Longrightarrow> suffix_of (base\<lparr>parts := parts base @ rel\<rparr>) = suffix_of_name (last rel)"
  by (simp add: suffix_of_def name_def)

lemma scan_images_link_free_eq:
  assumes "stat fs (Path root) = Some (rp, Dir es)" "wf_node (Dir es)" "link_free (Dir es)"
  shows "scan_images fs root exts =
         sort (map (\<lambda>rel. str \<lparr>anchored = True, parts = rp @ rel\<rparr>)
                (filter (\<lambda>rel. lookup (Dir es) rel = Some File \<and>
                               lower (suffix_of_name (last rel)) \<in> set (map lower exts))
                   (entries (Dir es))))"
proof -
  let ?base = "Path root"
  let ?ok = "\<lambda>p. is_file fs p \<and> lower (suffix_of p) \<in> set (map lower exts)"
  let ?ok' = "\<lambda>rel. lookup (Dir es) rel = Some File \<and> lower (suffix_of_name (last rel)) \<in> set (map lower exts)"
  let ?ext = "\<lambda>rel. ?base\<lparr>parts := parts ?base @ rel\<rparr>"
  have d: "is_dir fs ?base" using assms(1) by (simp add: is_dir_def)
  have r: "rglob fs ?base = map ?ext (entries (Dir es))" using assms(1) by (simp add: rglob_def)
  have e: "?ok (?ext rel) = ?ok' rel \<and> str (resolve fs (?ext rel)) = str \<lparr>anchored = True, parts = rp @ rel\<rparr>"
    if "rel \<in> set (entries (Dir es))" for rel
  proof -
    from stat_entry [OF assms that] obtain m where
      m: "lookup (Dir es) rel = Some m" and s: "stat fs (?ext rel) = Some (rp @ rel, m)" by auto
    from that have "rel \<noteq> []" by (rule entries_heads(1))
    then have "suffix_of (?ext rel) = suffix_of_name (last rel)" by (rule entry_name)
    moreover have "is_file fs (?ext rel) = (m = File)" using s by (cases m) (simp_all add: is_file_def)
    moreover have "resolve fs (?ext rel) = \<lparr>anchored = True, parts = rp @ rel\<rparr>" using s by (simp add: resolve_def)
    ultimately show ?thesis using m by simp
  qed
  have f: "filter ?ok (map ?ext (entries (Dir es))) = map ?ext (filter ?ok' (entries (Dir es)))"
    unfolding filter_map comp_def
    by (rule arg_cong [where f = "map ?ext"], rule filter_cong) (use e in auto)
  have h: "map (\<lambda>p. str (resolve fs p)) (map ?ext (filter ?ok' (entries (Dir es)))) =
        map (\<lambda>rel. str \<lparr>anchored = True, parts = rp @ rel\<rparr>) (filter ?ok' (entries (Dir es)))"
    unfolding map_map comp_def by (rule map_cong) (use e in auto)
  have g: "scan_images fs root exts = sort (map (\<lambda>p. str (resolve fs p)) (filter ?ok (rglob fs ?base)))"
    using d by (simp add: scan_images_def scan_loop_eq Let_def)
  show ?thesis by (simp only: g r f h)
qed


lemma scan_images_distinct:
  assumes "stat fs (Path root) = Some (rp, Dir es)" "wf_node (Dir es)" "link_free (Dir es)"
  shows "distinct (scan_images fs root exts)"
proof -
  let ?f = "\<lambda>rel. str \<lparr>anchored = True, parts = rp @ rel\<rparr>"
  have "inj_on ?f (set (entries (Dir es)))"
  proof (rule inj_onI)
    fix x y assume x: "x \<in> set (entries (Dir es))" and y: "y \<in> set (entries (Dir es))" and eq: "?f x = ?f y"
    from entries_sound(1) [OF assms(2) x] entries_sound(1) [OF assms(2) y]
    have "\<forall>c\<in>set x. CHR ''/'' \<notin> set c" "\<forall>c\<in>set y. CHR ''/'' \<notin> set c"
      by (auto simp: valid_name_def)
    with eq entries_heads(1) [OF x] entries_heads(1) [OF y] show "x = y"
      by (intro str_anchored_inj [of rp x y]) 
  qed
  then have "inj_on ?f (set (filter P (entries (Dir es))))" for P
    by (rule inj_on_subset) auto
  moreover have "distinct (filter P (entries (Dir es)))" for P
    using entries_distinct(1) [OF assms(2)] by simp
  ultimately show ?thesis
    by (simp add: scan_images_link_free_eq [OF assms] distinct_map)
qed







section \<open>Properties of the result store\<close>

lemma index_of_None: "index_of xs x = None \<longleftrightarrow> x \<notin> set xs"
  by (induction xs) auto

lemma index_of_Some:
  "x \<in> set xs \<Longrightarrow> index_of xs x = Some (length (takeWhile (\<lambda>y. y \<noteq> x) xs))"
  by (induction xs) auto

lemma first_position:
  "x \<in> set xs \<Longrightarrow> length (takeWhile (\<lambda>y. y \<noteq> x) xs) < length xs \<and> xs ! length (takeWhile (\<lambda>y. y \<noteq> x) xs) = x"
  by (induction xs) auto

lemma pop_first:
  "x \<in> set xs \<Longrightarrow>
     pop xs (length (takeWhile (\<lambda>y. y \<noteq> x) xs)) = Inr (remove1 x xs)"
  by (induction xs) (auto simp: pop_def)

lemma remove1_take_drop:
  "x \<in> set xs \<Longrightarrow> remove1 x xs =
     take (length (takeWhile (\<lambda>y. y \<noteq> x) xs)) xs @ drop (Suc (length (takeWhile (\<lambda>y. y \<noteq> x) xs))) xs"
  by (induction xs) auto

lemma length_remove1_present: "x \<in> set xs \<Longrightarrow> length (remove1 x xs) + 1 = length xs"
  by (induction xs) auto

lemma remove_path_absent: "pth \<notin> set (paths m) \<Longrightarrow> remove_path m pth = Inr m"
  by (simp add: remove_path_def index_of_None [THEN iffD2])

lemma remove_path_present:
  assumes "pth \<in> set (paths m)"
  shows "remove_path m pth =
           Inr (m\<lparr>paths := remove1 pth (paths m), thumbs := (thumbs m)(pth := None),
                   qt_calls := qt_calls m @
                     [BeginRemoveRows (length (takeWhile (\<lambda>y. y \<noteq> pth) (paths m)))
                        (length (takeWhile (\<lambda>y. y \<noteq> pth) (paths m))), EndRemoveRows]\<rparr>)"
  using assms by (simp add: remove_path_def index_of_Some pop_first)

lemma remove_path_paths: "remove_path m pth = Inr m' \<Longrightarrow> paths m' = remove1 pth (paths m)"
proof (cases "pth \<in> set (paths m)")
  case True
  assume "remove_path m pth = Inr m'"
  with remove_path_present [OF True] show ?thesis by auto
next
  case False
  assume "remove_path m pth = Inr m'"
  with remove_path_absent [OF False] False show ?thesis by (simp add: remove1_idem)
qed

text \<open>
  C7. \<^verbatim>\<open>remove_path\<close> never raises. When the path is absent the model is returned as it is:
  the same paths, the same cache and no call to Qt, so no notification. When the path is
  present, with \<open>r\<close> its first position, the new list is the old one without position \<open>r\<close>
  (one entry fewer, the others in their order), and the model makes exactly one
  \<^verbatim>\<open>beginRemoveRows(r, r)\<close>/\<^verbatim>\<open>endRemoveRows\<close> pair: the removal of the single row \<open>r\<close>.
\<close>

theorem remove_path_spec:
  "(pth \<notin> set (paths m) \<longrightarrow> remove_path m pth = Inr m) \<and>
   (pth \<in> set (paths m) \<longrightarrow>
      (let r = length (takeWhile (\<lambda>y. y \<noteq> pth) (paths m)) in
       r < length (paths m) \<and> paths m ! r = pth \<and>
       remove_path m pth =
         Inr (m\<lparr>paths := take r (paths m) @ drop (Suc r) (paths m),
                 thumbs := (thumbs m)(pth := None),
                 qt_calls := qt_calls m @ [BeginRemoveRows r r, EndRemoveRows]\<rparr>) \<and>
       length (take r (paths m) @ drop (Suc r) (paths m)) + 1 = length (paths m)))"
proof (cases "pth \<in> set (paths m)")
  case False
  then show ?thesis by (simp add: remove_path_absent)
next
  case True
  let ?r = "length (takeWhile (\<lambda>y. y \<noteq> pth) (paths m))"
  have e: "remove1 pth (paths m) = take ?r (paths m) @ drop (Suc ?r) (paths m)"
    using True by (rule remove1_take_drop)
  have l: "length (remove1 pth (paths m)) + 1 = length (paths m)"
    using True by (rule length_remove1_present)
  have f: "?r < length (paths m) \<and> paths m ! ?r = pth" using True by (rule first_position)
  have "remove_path m pth =
         Inr (m\<lparr>paths := take ?r (paths m) @ drop (Suc ?r) (paths m),
                 thumbs := (thumbs m)(pth := None),
                 qt_calls := qt_calls m @ [BeginRemoveRows ?r ?r, EndRemoveRows]\<rparr>)"
    using remove_path_present [OF True] e by simp
  moreover have "length (take ?r (paths m) @ drop (Suc ?r) (paths m)) + 1 = length (paths m)"
    using l e by simp
  ultimately show ?thesis using True f by (simp add: Let_def)
qed

text \<open>The theorem at a path that is absent and at one that is present.\<close>

theorem remove_path_spec_witness:
  "''/x'' \<notin> set (paths example_model) \<and>
   remove_path example_model ''/x'' = Inr example_model \<and>
   ''/d/b.JPG'' \<in> set (paths example_model) \<and>
   remove_path example_model ''/d/b.JPG'' =
     Inr (example_model\<lparr>paths := [''/d/a.png'', ''/d/sub/d.webp''],
            thumbs := (thumbs example_model)(''/d/b.JPG'' := None),
            qt_calls := [BeginRemoveRows 1 1, EndRemoveRows]\<rparr>)"
proof -
  have a: "''/x'' \<notin> set (paths example_model)"
    by (simp add: example_model_def ImageListModel_init_def)
  have b: "''/d/b.JPG'' \<in> set (paths example_model)"
    by (simp add: example_model_def ImageListModel_init_def)
  have c: "paths example_model = [''/d/a.png'', ''/d/b.JPG'', ''/d/sub/d.webp'']"
    "qt_calls example_model = []"
    by (simp_all add: example_model_def ImageListModel_init_def)
  from remove_path_spec [of "''/x''" example_model] a
  have "remove_path example_model ''/x'' = Inr example_model" by blast
  moreover from remove_path_spec [of "''/d/b.JPG''" example_model] b
  have "remove_path example_model ''/d/b.JPG'' =
     Inr (example_model\<lparr>paths := [''/d/a.png'', ''/d/sub/d.webp''],
            thumbs := (thumbs example_model)(''/d/b.JPG'' := None),
            qt_calls := [BeginRemoveRows 1 1, EndRemoveRows]\<rparr>)"
    by (simp add: c Let_def)
  ultimately show ?thesis using a b by blast
qed

text \<open>
  C10, as amended. For an invalid index \<^verbatim>\<open>data\<close> returns \<^verbatim>\<open>None\<close>. For a valid index whose
  row is below the row count, and a role that is not the display, decoration or file-path
  role, it returns \<^verbatim>\<open>None\<close>. For a valid index whose row is not below the row count it
  raises \<^verbatim>\<open>IndexError\<close>, whatever the role.
\<close>

theorem data_spec:
  "(\<not> isValid idx \<longrightarrow> data m idx role = Inr (None, m)) \<and>
   (isValid idx \<and> nat (row idx) < rowCount m \<and>
    role \<noteq> displayRole \<and> role \<noteq> decorationRole \<and> role \<noteq> FILEPATH_ROLE
      \<longrightarrow> data m idx role = Inr (None, m)) \<and>
   (isValid idx \<and> rowCount m \<le> nat (row idx) \<longrightarrow> data m idx role = Inl IndexError)"
  by (simp add: data_def rowCount_def Let_def)

text \<open>The theorem at an invalid index, at a row of the model, and at a row beyond it.\<close>

theorem data_spec_witness:
  "\<not> isValid (example_index\<lparr>row := - 1\<rparr>) \<and>
   data example_model (example_index\<lparr>row := - 1\<rparr>) displayRole = Inr (None, example_model) \<and>
   isValid example_index \<and> nat (row example_index) < rowCount example_model \<and>
   data example_model example_index 1000 = Inr (None, example_model) \<and>
   isValid (example_index\<lparr>row := 3\<rparr>) \<and> rowCount example_model \<le> nat (row (example_index\<lparr>row := 3\<rparr>)) \<and>
   data example_model (example_index\<lparr>row := 3\<rparr>) 1000 = Inl IndexError"
proof -
  have a: "\<not> isValid (example_index\<lparr>row := - 1\<rparr>)"
    by (simp add: isValid_def example_index_def)
  have b: "isValid example_index \<and> nat (row example_index) < rowCount example_model \<and>
           (1000 :: int) \<noteq> displayRole \<and> (1000 :: int) \<noteq> decorationRole \<and> (1000 :: int) \<noteq> FILEPATH_ROLE"
    by (simp add: isValid_def example_index_def rowCount_def example_model_def
        ImageListModel_init_def displayRole_def decorationRole_def FILEPATH_ROLE_def)
  have c: "isValid (example_index\<lparr>row := 3\<rparr>) \<and>
           rowCount example_model \<le> nat (row (example_index\<lparr>row := 3\<rparr>))"
    by (simp add: isValid_def example_index_def rowCount_def example_model_def
        ImageListModel_init_def)
  from data_spec [of "example_index\<lparr>row := - 1\<rparr>" example_model displayRole] a
  have "data example_model (example_index\<lparr>row := - 1\<rparr>) displayRole = Inr (None, example_model)"
    by blast
  moreover from data_spec [of example_index example_model 1000] b
  have "data example_model example_index 1000 = Inr (None, example_model)" by blast
  moreover from data_spec [of "example_index\<lparr>row := 3\<rparr>" example_model 1000] c
  have "data example_model (example_index\<lparr>row := 3\<rparr>) 1000 = Inl IndexError" by blast
  ultimately show ?thesis using a b c by blast
qed

text \<open>
  C10 as stated fails for an index that is valid and whose row the model no longer has:
  the index of row 2 is valid, and answers \<^verbatim>\<open>None\<close> for role 1000 while the model has three
  rows; after \<^verbatim>\<open>replace([])\<close> the same index is still valid, and
  \<^verbatim>\<open>self._paths[index.row()]\<close> is an access out of range.
\<close>

theorem data_stale_index:
  "isValid (example_index\<lparr>row := 2\<rparr>) \<and>
   (1000 :: int) \<noteq> displayRole \<and> (1000 :: int) \<noteq> decorationRole \<and> (1000 :: int) \<noteq> FILEPATH_ROLE \<and>
   data example_model (example_index\<lparr>row := 2\<rparr>) 1000 = Inr (None, example_model) \<and>
   data (replace example_model []) (example_index\<lparr>row := 2\<rparr>) 1000 = Inl IndexError"
  by (simp add: data_def isValid_def example_index_def example_model_def ImageListModel_init_def
      replace_def displayRole_def decorationRole_def FILEPATH_ROLE_def)

text \<open>
  C9, as amended. The code never compares the entries of the store with one another, so
  the store is free of duplicates when what is put into it is: \<^verbatim>\<open>remove_path\<close> keeps a
  duplicate-free list duplicate-free; after \<^verbatim>\<open>replace(ps)\<close> the list is duplicate-free
  exactly when \<open>ps\<close> is; and the result of a scan, once published, is duplicate-free when
  the root is a directory with a well-formed tree without symbolic links.
\<close>

theorem store_distinct:
  "(distinct (paths m) \<and> remove_path m pth = Inr m' \<longrightarrow> distinct (paths m')) \<and>
   (distinct (paths (replace m ps)) \<longleftrightarrow> distinct ps) \<and>
   (stat fs (Path root) = Some (rp, Dir es) \<and> wf_node (Dir es) \<and> link_free (Dir es) \<longrightarrow>
      distinct (paths (model (vm (handle w (Result (scan_images fs root exts)) a)))))"
proof -
  have "distinct (paths m')" if "distinct (paths m)" "remove_path m pth = Inr m'"
    using that by (simp add: remove_path_paths)
  moreover have "distinct (paths (replace m ps)) \<longleftrightarrow> distinct ps"
    by (simp add: replace_def)
  moreover have "distinct (paths (model (vm (handle w (Result (scan_images fs root exts)) a))))"
    if "stat fs (Path root) = Some (rp, Dir es)" "wf_node (Dir es)" "link_free (Dir es)"
    using scan_images_distinct [OF that] by (simp add: replace_def)
  ultimately show ?thesis by blast
qed

text \<open>The theorem at a removal from the example model and at the scan of the test's directory.\<close>

theorem store_distinct_witness:
  "distinct (paths example_model) \<and>
   remove_path example_model ''/d/a.png'' =
     Inr (example_model\<lparr>paths := [''/d/b.JPG'', ''/d/sub/d.webp''],
            thumbs := (thumbs example_model)(''/d/a.png'' := None),
            qt_calls := [BeginRemoveRows 0 0, EndRemoveRows]\<rparr>) \<and>
   distinct (paths (example_model\<lparr>paths := [''/d/b.JPG'', ''/d/sub/d.webp''],
            thumbs := (thumbs example_model)(''/d/a.png'' := None),
            qt_calls := [BeginRemoveRows 0 0, EndRemoveRows]\<rparr>)) \<and>
   stat example_fs (Path ''/d'') = Some ([''d''], Dir example_dir) \<and>
   wf_node (Dir example_dir) \<and> link_free (Dir example_dir) \<and>
   distinct (paths (model (vm (handle 0 (Result (scan_images example_fs ''/d'' IMAGE_EXTENSIONS)) app_init))))"
proof -
  let ?m' = "example_model\<lparr>paths := [''/d/b.JPG'', ''/d/sub/d.webp''],
            thumbs := (thumbs example_model)(''/d/a.png'' := None),
            qt_calls := [BeginRemoveRows 0 0, EndRemoveRows]\<rparr>"
  have d: "distinct (paths example_model)"
    by (simp add: example_model_def ImageListModel_init_def)
  have r: "remove_path example_model ''/d/a.png'' = Inr ?m'"
    by (simp add: remove_path_def pop_def example_model_def ImageListModel_init_def)
  have h1: "stat example_fs (Path ''/d'') = Some ([''d''], Dir example_dir)" by code_simp
  have h2: "wf_node (Dir example_dir)" by code_simp
  have h3: "link_free (Dir example_dir)" by code_simp
  note t = store_distinct [of example_model "''/d/a.png''" ?m' "[]" example_fs "''/d''"
      "[''d'']" example_dir 0 IMAGE_EXTENSIONS app_init]
  from t d r have "distinct (paths ?m')" by blast
  moreover from t h1 h2 h3
  have "distinct (paths (model (vm (handle 0 (Result (scan_images example_fs ''/d'' IMAGE_EXTENSIONS)) app_init))))"
    by blast
  ultimately show ?thesis using d r h1 h2 h3 by blast
qed

text \<open>
  C9 as stated fails: the scan of the directory with a picture and a link to it is
  published as it is, and the store holds \<^verbatim>\<open>/d/a.png\<close> twice.
\<close>

theorem store_duplicate_after_scan:
  "paths (model (vm (exec symlink_fs [Scan ''/d'', Returns 0, Deliver] app_init))) =
     [''/d/a.png'', ''/d/a.png''] \<and>
   \<not> distinct (paths (model (vm (exec symlink_fs [Scan ''/d'', Returns 0, Deliver] app_init))))"
  by code_simp

section \<open>Properties of the filtered view\<close>







section \<open>Properties of the scan controller\<close>

text \<open>No step of the application changes the set-up of the proxy but \<^verbatim>\<open>set_filter\<close>, which
  changes the filter string only.\<close>

lemma proxy_set_busy: "proxy (set_busy v b) = proxy v"
  by (simp add: set_busy_def)

lemma proxy_step: "proxy (vm (step fs a act)) = proxy (vm a)"
proof (cases act)
  case (Scan dir)
  then show ?thesis by (simp add: scan_def Let_def proxy_set_busy)
next
  case (Returns w)
  then show ?thesis by (simp add: complete_def)
next
  case (Raises w exc)
  then show ?thesis by (simp add: complete_def)
next
  case Deliver
  show ?thesis
  proof (cases "queue a")
    case Nil
    with Deliver show ?thesis by (simp add: deliver_def)
  next
    case (Cons ev rest)
    with Deliver show ?thesis
      by (cases "snd ev") (simp_all add: deliver_def on_finished_def proxy_set_busy)
  qed
qed

lemma proxy_exec: "proxy (vm (exec fs acts a)) = proxy (vm a)"
  unfolding exec_def by (induction acts arbitrary: a) (simp_all add: proxy_step)

lemma proxy_reachable:
  "\<not> case_sensitive (proxy (vm (exec fs acts app_init))) \<and>
   filter_role (proxy (vm (exec fs acts app_init))) = displayRole"
  by (simp add: proxy_exec app_init_def ViewModel_init_def)

text \<open>
  What the cancellation does achieve: a request made while a worker is current sets the
  flag of that worker before the new worker exists, and a worker whose flag is set when
  \<^verbatim>\<open>run\<close> reaches its test emits nothing but \<^verbatim>\<open>finished\<close>.
\<close>

lemma scan_cancels_current:
  assumes "dir \<noteq> []" "os_path_isdir fs dir" "current_worker (vm a) = Some c" "c < length (workers a)"
  shows "cancel_event (workers (scan fs dir a) ! c) \<and>
         current_worker (vm (scan fs dir a)) = Some (length (workers a)) \<and>
         workers (scan fs dir a) ! length (workers a) = ScanWorker_init dir \<and>
         busy (vm (scan fs dir a))"
  using assms by (simp add: scan_def Let_def cancel_def set_busy_def nth_append)

lemma run_cancelled: "cancel_event w \<Longrightarrow> run w outcome = [Finished]"
  by (cases outcome) (simp_all add: run_def)

text \<open>
  C4, as amended. A request with the empty string, or with a string that is not the name
  of a directory, replaces the store by the empty list (one reset) and does nothing else:
  the busy flag, the current worker, the pool and the queue stay as they are. So the
  controller is idle afterwards when it was idle before, and a scan in flight stays in
  flight.
\<close>

theorem scan_invalid_path:
  assumes "dir = [] \<or> \<not> os_path_isdir fs dir"
  shows "scan fs dir a = a\<lparr>vm := (vm a)\<lparr>model := replace (model (vm a)) []\<rparr>\<rparr> \<and>
         paths (model (vm (scan fs dir a))) = [] \<and>
         qt_calls (model (vm (scan fs dir a))) =
           qt_calls (model (vm a)) @ [BeginResetModel, EndResetModel] \<and>
         busy (vm (scan fs dir a)) = busy (vm a) \<and>
         busyChanged (vm (scan fs dir a)) = busyChanged (vm a) \<and>
         current_worker (vm (scan fs dir a)) = current_worker (vm a) \<and>
         workers (scan fs dir a) = workers a \<and> pool (scan fs dir a) = pool a \<and>
         queue (scan fs dir a) = queue a \<and> stdout (scan fs dir a) = stdout a"
  using assms by (auto simp: scan_def replace_def)

text \<open>The theorem at the idle application and the path of a regular file.\<close>

theorem scan_invalid_path_witness:
  "\<not> os_path_isdir example_fs ''/d/c.txt'' \<and>
   paths (model (vm (scan example_fs ''/d/c.txt'' app_init))) = [] \<and>
   busy (vm (scan example_fs ''/d/c.txt'' app_init)) = False \<and>
   current_worker (vm (scan example_fs ''/d/c.txt'' app_init)) = None"
proof -
  have h: "\<not> os_path_isdir example_fs ''/d/c.txt''" by code_simp
  then have h': "''/d/c.txt'' = [] \<or> \<not> os_path_isdir example_fs ''/d/c.txt''" by simp
  have b: "busy (vm app_init) = False" "current_worker (vm app_init) = None"
    by (simp_all add: app_init_def ViewModel_init_def)
  show ?thesis using h b scan_invalid_path [OF h', of app_init] by (simp add: replace_def)
qed

text \<open>
  C4 as stated fails while a scan is in flight: after a request for \<^verbatim>\<open>/d\<close>, a request
  with the empty string leaves the controller busy, with worker 0 current and in the pool.
\<close>

theorem scan_invalid_path_busy:
  "os_path_isdir example_fs ''/d'' \<and>
   busy (vm (scan example_fs [] (scan example_fs ''/d'' app_init))) = True \<and>
   current_worker (vm (scan example_fs [] (scan example_fs ''/d'' app_init))) = Some 0 \<and>
   pool (scan example_fs [] (scan example_fs ''/d'' app_init)) = [0]"
  by code_simp

text \<open>
  C5. When the scan of the current worker raises and its flag is not set, \<^verbatim>\<open>run\<close> emits
  \<^verbatim>\<open>error\<close> and then \<^verbatim>\<open>finished\<close>. The two slots leave the model (the store, its cache and
  its notifications) as it is, print the message, clear the busy flag and clear the
  current worker; the application goes on.
\<close>

theorem live_failure:
  assumes "current_worker (vm a) = Some w" and "\<not> cancel_event (workers a ! w)"
  shows "run (workers a ! w) (Inl exc) = [Error exc, Finished] \<and>
         model (vm (handle w Finished (handle w (Error exc) a))) = model (vm a) \<and>
         busy (vm (handle w Finished (handle w (Error exc) a))) = False \<and>
         current_worker (vm (handle w Finished (handle w (Error exc) a))) = None \<and>
         stdout (handle w Finished (handle w (Error exc) a)) = stdout a @ [''Scan error: '' @ exc]"
  using assms by (simp add: run_def on_finished_def set_busy_def)

text \<open>The theorem at the application that has just started the scan of \<^verbatim>\<open>/d\<close>, together
  with the run of the three steps: the scan raises, the two signals are delivered.\<close>

theorem live_failure_witness:
  "current_worker (vm (scan example_fs ''/d'' app_init)) = Some 0 \<and>
   \<not> cancel_event (workers (scan example_fs ''/d'' app_init) ! 0) \<and>
   run (workers (scan example_fs ''/d'' app_init) ! 0) (Inl ''boom'') = [Error ''boom'', Finished] \<and>
   paths (model (vm (handle 0 Finished (handle 0 (Error ''boom'') (scan example_fs ''/d'' app_init))))) = [] \<and>
   busy (vm (handle 0 Finished (handle 0 (Error ''boom'') (scan example_fs ''/d'' app_init)))) = False \<and>
   current_worker (vm (handle 0 Finished (handle 0 (Error ''boom'') (scan example_fs ''/d'' app_init)))) = None \<and>
   stdout (handle 0 Finished (handle 0 (Error ''boom'') (scan example_fs ''/d'' app_init))) =
     [''Scan error: boom''] \<and>
   exec example_fs [Raises 0 ''boom'', Deliver, Deliver] (scan example_fs ''/d'' app_init) =
     handle 0 Finished (handle 0 (Error ''boom'') ((scan example_fs ''/d'' app_init)\<lparr>pool := []\<rparr>))"
proof -
  let ?a = "scan example_fs ''/d'' app_init"
  have h1: "current_worker (vm ?a) = Some 0" by code_simp
  have h2: "\<not> cancel_event (workers ?a ! 0)" by code_simp
  have m: "paths (model (vm ?a)) = []" by code_simp
  have o: "stdout ?a = []" by code_simp
  have q: "queue ?a = []" "pool ?a = [0]" by code_simp+
  have e: "exec example_fs [Raises 0 ''boom'', Deliver, Deliver] ?a =
     handle 0 Finished (handle 0 (Error ''boom'') (?a\<lparr>pool := []\<rparr>))"
    using h2 q by (simp add: exec_def complete_def deliver_def run_def)
  from live_failure [OF h1 h2, of "''boom''"] h1 h2 m o e show ?thesis by simp
qed

text \<open>
  C2 is not what the code does. The worker reads its cancel flag when it emits, on the pool
  thread; the store is replaced when the signal is delivered, on the main thread. Worker 0
  scans \<^verbatim>\<open>/d\<close> and emits its result; before the main thread delivers it, a scan of \<^verbatim>\<open>/e\<close> is
  requested, which cancels worker 0 and starts worker 1; the delivery then puts the result
  of the cancelled worker 0 into the store, while worker 1 is the current one.
\<close>

theorem cancelled_result_published:
  "cancel_event (workers (exec example_fs [Scan ''/d'', Returns 0, Scan ''/e'', Deliver] app_init) ! 0) \<and>
   current_worker (vm (exec example_fs [Scan ''/d'', Returns 0, Scan ''/e'', Deliver] app_init)) = Some 1 \<and>
   pool (exec example_fs [Scan ''/d'', Returns 0, Scan ''/e'', Deliver] app_init) = [1] \<and>
   paths (model (vm (exec example_fs [Scan ''/d'', Returns 0, Scan ''/e''] app_init))) = [] \<and>
   paths (model (vm (exec example_fs [Scan ''/d'', Returns 0, Scan ''/e'', Deliver] app_init))) =
     [''/d/a.png'', ''/d/b.JPG'', ''/d/sub/d.webp'']"
  by code_simp

text \<open>
  C3 is not what the code does. \<^verbatim>\<open>on_finished\<close> guards the reset of the current worker
  with \<^verbatim>\<open>self._current_worker is worker\<close>, and calls \<^verbatim>\<open>_set_busy(False)\<close> outside the guard.
  Worker 0 is cancelled by the request that starts worker 1; when worker 0 ends it emits
  \<^verbatim>\<open>finished\<close> only, and the delivery of that signal clears the busy flag while worker 1 is
  current and still in the pool.
\<close>

theorem cancelled_finish_clears_busy:
  "cancel_event (workers (exec example_fs [Scan ''/d'', Scan ''/e'', Returns 0] app_init) ! 0) \<and>
   queue (exec example_fs [Scan ''/d'', Scan ''/e'', Returns 0] app_init) = [(0, Finished)] \<and>
   busy (vm (exec example_fs [Scan ''/d'', Scan ''/e'', Returns 0] app_init)) = True \<and>
   busy (vm (exec example_fs [Scan ''/d'', Scan ''/e'', Returns 0, Deliver] app_init)) = False \<and>
   busyChanged (vm (exec example_fs [Scan ''/d'', Scan ''/e'', Returns 0, Deliver] app_init)) =
     [True, False] \<and>
   current_worker (vm (exec example_fs [Scan ''/d'', Scan ''/e'', Returns 0, Deliver] app_init)) = Some 1 \<and>
   pool (exec example_fs [Scan ''/d'', Scan ''/e'', Returns 0, Deliver] app_init) = [1]"
  by code_simp

end
